theory Spec2Isabelle
  imports Main
begin

section \<open>JavaScript values used by tools/sync_models.mjs\<close>

text \<open>
  Everything the reconciler reads (upstream pages, \<open>data/performers.json\<close>,
  \<open>data/catalog.json\<close>, \<open>site.config.json\<close>) is the result of \<open>JSON.parse\<close>.
  A parsed value is a \<open>json\<close>; JavaScript's \<open>undefined\<close> (a missing property, a missing
  map entry) is \<open>None\<close> of \<open>json option\<close>.  Numbers are the integer-valued ones
  (\<open>String\<close> prints them in decimal); strings are byte strings.  An object keeps its
  properties in source order, a repeated key meaning its last binding, as \<open>JSON.parse\<close>
  reads it.
\<close>

datatype json =
    JNull
  | JBool bool
  | JNum int
  | JStr string
  | JArr "json list"
  | JObj "(string \<times> json) list"

text \<open>\<open>v?.k\<close> and \<open>v.k\<close> for the property names the script reads: only an object
  has them.\<close>

fun getProp :: "json option \<Rightarrow> string \<Rightarrow> json option" where
  "getProp (Some (JObj kvs)) k = map_of (rev kvs) k"
| "getProp _ k = None"

text \<open>Truthiness, as \<open>if (v)\<close>, \<open>!v\<close>, \<open>a || b\<close> and \<open>filter(Boolean)\<close> read it.\<close>

fun truthy :: "json option \<Rightarrow> bool" where
  "truthy None = False"
| "truthy (Some JNull) = False"
| "truthy (Some (JBool b)) = b"
| "truthy (Some (JNum n)) = (n \<noteq> 0)"
| "truthy (Some (JStr s)) = (s \<noteq> [])"
| "truthy (Some (JArr xs)) = True"
| "truthy (Some (JObj kvs)) = True"

definition orElse :: "json option \<Rightarrow> json option \<Rightarrow> json option" where
  "orElse a b = (if truthy a then a else b)"

fun showNat :: "nat \<Rightarrow> string" where
  "showNat n =
     (if n < 10 then [''0123456789'' ! n]
      else showNat (n div 10) @ [''0123456789'' ! (n mod 10)])"

definition showInt :: "int \<Rightarrow> string" where
  "showInt i = (if i < 0 then CHR ''-'' # showNat (nat (- i)) else showNat (nat i))"

fun join :: "string \<Rightarrow> string list \<Rightarrow> string" where
  "join sep [] = []"
| "join sep [x] = x"
| "join sep (x # y # ys) = x @ sep @ join sep (y # ys)"

text \<open>\<open>String(v)\<close>.  An array prints its elements joined by commas, \<open>null\<close> as the
  empty string there.\<close>

fun toStr :: "json \<Rightarrow> string" where
  "toStr JNull = ''null''"
| "toStr (JBool b) = (if b then ''true'' else ''false'')"
| "toStr (JNum n) = showInt n"
| "toStr (JStr s) = s"
| "toStr (JArr xs) = join '','' (map (\<lambda>x. if x = JNull then [] else toStr x) xs)"
| "toStr (JObj kvs) = ''[object Object]''"

definition String_js :: "json option \<Rightarrow> string" where
  "String_js v = (case v of None \<Rightarrow> ''undefined'' | Some x \<Rightarrow> toStr x)"

text \<open>\<open>trim\<close> and \<open>toLowerCase\<close> on the ASCII range: tab, line feed, vertical tab,
  form feed, carriage return and space are the white space; \<open>A\<close> to \<open>Z\<close> are the
  letters that change.\<close>

definition isSpace :: "char \<Rightarrow> bool" where
  "isSpace c = (c \<in> set [CHR 0x09, CHR 0x0A, CHR 0x0B, CHR 0x0C, CHR 0x0D, CHR 0x20])"

definition trim :: "string \<Rightarrow> string" where
  "trim s = rev (dropWhile isSpace (rev (dropWhile isSpace s)))"

definition lowerChar :: "char \<Rightarrow> char" where
  "lowerChar c =
     (let n = (of_char c :: nat)
      in if 65 \<le> n \<and> n \<le> 90 then char_of (n + 32) else c)"

definition toLowerCase :: "string \<Rightarrow> string" where
  "toLowerCase s = map lowerChar s"

text \<open>\<open>s.includes(t)\<close>: \<open>t\<close> occurs in \<open>s\<close> as a contiguous run.\<close>

fun includesStr :: "string \<Rightarrow> string \<Rightarrow> bool" where
  "includesStr [] t = (t = [])"
| "includesStr (c # cs) t = (take (length t) (c # cs) = t \<or> includesStr cs t)"

text \<open>\<open>s.split(",")\<close>: never empty, the empty string splits into one empty piece.\<close>

fun splitOn :: "char \<Rightarrow> string \<Rightarrow> string list" where
  "splitOn sep [] = [[]]"
| "splitOn sep (c # cs) =
     (if c = sep then [] # splitOn sep cs
      else (case splitOn sep cs of [] \<Rightarrow> [[c]] | p # ps \<Rightarrow> (c # p) # ps))"

section \<open>Brand keys and identifiers\<close>

definition normalizeBrand :: "json option \<Rightarrow> string" where
  "normalizeBrand s =
     (let b = trim (toLowerCase (String_js (orElse s (Some (JStr [])))))
      in if b = [] then []
         else if includesStr b ''bonga'' then ''bongacams''
         else if includesStr b ''royal'' then ''royalcams''
         else b)"

definition idFor :: "json \<Rightarrow> string" where
  "idFor p =
     trim (String_js (orElse (orElse (getProp (Some p) ''itemId'') (getProp (Some p) ''id''))
                             (Some (JStr []))))"

definition splitBrands :: "string \<Rightarrow> string list" where
  "splitBrands s =
     filter (\<lambda>b. b \<noteq> []) (map (\<lambda>x. normalizeBrand (Some (JStr x))) (splitOn CHR '','' s))"

definition getDefaultBrandsFromConfig :: "json option \<Rightarrow> string list" where
  "getDefaultBrandsFromConfig cfg =
     (let fromCfg = (case getProp (getProp cfg ''crak'') ''brands'' of
                       Some (JArr bs) \<Rightarrow> bs | _ \<Rightarrow> []);
          brands = filter (\<lambda>b. b \<noteq> []) (map (\<lambda>x. normalizeBrand (Some x)) fromCfg)
      in if brands \<noteq> [] then brands
         else [''stripchat'', ''chaturbate'', ''awempire'', ''streamate''])"

section \<open>Insertion-ordered maps\<close>

text \<open>
  A JavaScript \<open>Map\<close> iterates in insertion order, and \<open>set\<close> on a key already
  present replaces the value where the key stands.  The model is an association list
  with one entry for each key.
\<close>

type_synonym 'v jsmap = "(string \<times> 'v) list"

definition mapHas :: "'v jsmap \<Rightarrow> string \<Rightarrow> bool" where
  "mapHas m k = (map_of m k \<noteq> None)"

definition mapGet :: "'v jsmap \<Rightarrow> string \<Rightarrow> 'v option" where
  "mapGet m k = map_of m k"

fun mapSet :: "'v jsmap \<Rightarrow> string \<Rightarrow> 'v \<Rightarrow> 'v jsmap" where
  "mapSet [] k v = [(k, v)]"
| "mapSet ((k', v') # m) k v = (if k' = k then (k, v) # m else (k', v') # mapSet m k v)"

definition mapKeys :: "'v jsmap \<Rightarrow> string list" where
  "mapKeys m = map fst m"

section \<open>Quotas\<close>

text \<open>
  \<open>for (let i = 0; i < nBrands; i++) quota.set(brandList[i], base + (i < extra ? 1 : 0))\<close>,
  and \<open>quota.get(brand) || 0\<close> where the fetch loop reads it.
\<close>

fun setQuotas :: "nat \<Rightarrow> nat \<Rightarrow> nat \<Rightarrow> string list \<Rightarrow> nat jsmap \<Rightarrow> nat jsmap" where
  "setQuotas base extra i [] q = q"
| "setQuotas base extra i (b # bs) q =
     setQuotas base extra (Suc i) bs (mapSet q b (base + (if i < extra then 1 else 0)))"

definition quota :: "nat \<Rightarrow> string list \<Rightarrow> nat jsmap" where
  "quota mx brandList =
     (let nBrands = length brandList;
          base = mx div nBrands;
          extra = mx mod nBrands
      in setQuotas base extra 0 brandList [])"

definition want :: "nat jsmap \<Rightarrow> string \<Rightarrow> nat" where
  "want q brand = (case mapGet q brand of Some w \<Rightarrow> w | None \<Rightarrow> 0)"

section \<open>Fetching pages\<close>

text \<open>
  What \<open>await fetch(url, ...)\<close> gives for one request: the promise rejects (no
  response at all; the exception reaches \<open>main().catch\<close> and the process exits with
  status 1), or it resolves to a response with its \<open>ok\<close> flag, its status, its body
  text (the empty text when reading the body fails) and the outcome of \<open>JSON.parse\<close>
  on that text, \<open>None\<close> when it throws.  The upstream is a function of the number of
  requests made before, the brand and the page; the token, the API key, the user agent
  and the page size are the same for every request of a run and are part of it.  The
  pause between pages is left out.  The warnings are the events of the log, the body
  text cut to 140 characters as \<open>txt.slice(0, 140)\<close> cuts it.
\<close>

datatype response = Rejected | Response bool nat string "json option"

datatype error = MissingEnv | FetchFailed

datatype event =
    WarnHttp string nat nat string
  | WarnParse string nat string
  | WarnBrandsChanged

type_synonym upstream = "nat \<Rightarrow> string \<Rightarrow> nat \<Rightarrow> response"

definition pickArray :: "json \<Rightarrow> json list" where
  "pickArray data =
     (case getProp (Some data) ''performers'' of
        Some (JArr xs) \<Rightarrow> xs
      | _ \<Rightarrow> (case getProp (Some data) ''data'' of Some (JArr ys) \<Rightarrow> ys | _ \<Rightarrow> []))"

fun fetchPage :: "response \<Rightarrow> string \<Rightarrow> nat \<Rightarrow> error + (json list \<times> event list)" where
  "fetchPage Rejected brand page = Inl FetchFailed"
| "fetchPage (Response ok status txt parsed) brand page =
     (if \<not> ok then Inr ([], [WarnHttp brand page status (take 140 txt)])
      else (case parsed of
              None \<Rightarrow> Inr ([], [WarnParse brand page (take 140 txt)])
            | Some data \<Rightarrow> Inr (pickArray data, [])))"

text \<open>
  The state of the fetch loops: the set \<open>seen\<close> and the map \<open>freshByBrand\<close> of
  the script, and its two effects, the warnings printed so far and the number of
  requests sent so far.
\<close>

record fstate =
  seen :: "string set"
  freshByBrand :: "json list jsmap"
  events :: "event list"
  requests :: nat

text \<open>\<open>(freshByBrand.get(brand) || [])\<close>, its length, and \<open>push\<close> on it.\<close>

definition brandFresh :: "json list jsmap \<Rightarrow> string \<Rightarrow> json list" where
  "brandFresh m brand = (case mapGet m brand of Some xs \<Rightarrow> xs | None \<Rightarrow> [])"

definition pushFresh :: "json list jsmap \<Rightarrow> string \<Rightarrow> json \<Rightarrow> json list jsmap" where
  "pushFresh m brand p =
     (case mapGet m brand of Some xs \<Rightarrow> mapSet m brand (xs @ [p]) | None \<Rightarrow> m)"

text \<open>The \<open>for (const p of arr)\<close> loop of one page.\<close>

fun absorb :: "nat \<Rightarrow> string \<Rightarrow> json list \<Rightarrow> fstate \<Rightarrow> fstate" where
  "absorb w brand [] st = st"
| "absorb w brand (p # ps) st =
     (let ident = idFor p in
      if ident = [] then absorb w brand ps st
      else if ident \<in> seen st then absorb w brand ps st
      else
        (let st' = st\<lparr>seen := insert ident (seen st),
                      freshByBrand := pushFresh (freshByBrand st) brand p\<rparr>
         in if length (brandFresh (freshByBrand st') brand) \<ge> w then st'
            else absorb w brand ps st'))"

text \<open>The \<open>while\<close> loop of one brand, from page \<open>page\<close> on.\<close>

function fetchPages :: "upstream \<Rightarrow> nat \<Rightarrow> string \<Rightarrow> nat \<Rightarrow> fstate \<Rightarrow> error + fstate" where
  "fetchPages net w brand page st =
     (if length (brandFresh (freshByBrand st) brand) < w then
        (case fetchPage (net (requests st) brand page) brand page of
           Inl e \<Rightarrow> Inl e
         | Inr (arr, evs) \<Rightarrow>
             (let st1 = st\<lparr>events := events st @ evs, requests := Suc (requests st)\<rparr>
              in if arr = [] then Inr st1
                 else (let st2 = absorb w brand arr st1
                       in if page + 1 > 250 then Inr st2
                          else fetchPages net w brand (page + 1) st2)))
      else Inr st)"
  by pat_completeness auto
termination
  by (relation "measure (\<lambda>(net, w, brand, page, st). 251 - page)") auto

text \<open>The \<open>for (const brand of brandList)\<close> loop around it.\<close>

fun fetchBrands :: "upstream \<Rightarrow> nat jsmap \<Rightarrow> string list \<Rightarrow> fstate \<Rightarrow> error + fstate" where
  "fetchBrands net q [] st = Inr st"
| "fetchBrands net q (brand # bs) st =
     (let w = want q brand in
      if w \<le> 0 then fetchBrands net q bs st
      else (case fetchPages net w brand 1 st of
              Inl e \<Rightarrow> Inl e
            | Inr st' \<Rightarrow> fetchBrands net q bs st'))"

fun initFresh :: "string list \<Rightarrow> json list jsmap \<Rightarrow> json list jsmap" where
  "initFresh [] m = m"
| "initFresh (b # bs) m = initFresh bs (mapSet m b [])"

definition collectFresh :: "string list \<Rightarrow> json list jsmap \<Rightarrow> json list" where
  "collectFresh brandList m = concat (map (brandFresh m) brandList)"

section \<open>Previous artifacts\<close>

definition prevArr :: "json option \<Rightarrow> json list" where
  "prevArr prevPerf =
     (if truthy prevPerf
      then (case getProp prevPerf ''performers'' of Some (JArr ps) \<Rightarrow> ps | _ \<Rightarrow> [])
      else [])"

fun loadPrev :: "json list \<Rightarrow> json jsmap \<Rightarrow> json jsmap" where
  "loadPrev [] m = m"
| "loadPrev (p # ps) m =
     (let ident = idFor p in
      if ident \<noteq> [] \<and> \<not> mapHas m ident then loadPrev ps (mapSet m ident p) else loadPrev ps m)"

definition prevIds :: "json option \<Rightarrow> string list" where
  "prevIds prevCat =
     (let raw = (if truthy prevCat
                 then (case prevCat of
                         Some (JArr xs) \<Rightarrow> xs
                       | _ \<Rightarrow> (case getProp prevCat ''ids'' of Some (JArr ys) \<Rightarrow> ys | _ \<Rightarrow> []))
                 else [])
      in filter (\<lambda>x. x \<noteq> []) (map toStr raw))"

definition prevBrands :: "json option \<Rightarrow> string list" where
  "prevBrands prevCat =
     (if truthy prevCat
      then (case getProp prevCat ''brands'' of
              Some (JArr bs) \<Rightarrow> filter (\<lambda>b. b \<noteq> []) (map (\<lambda>x. normalizeBrand (Some x)) bs)
            | _ \<Rightarrow> [])
      else [])"

definition brandsChanged :: "string list \<Rightarrow> string list \<Rightarrow> bool" where
  "brandsChanged pBrands brandList =
     (pBrands \<noteq> [] \<and> join '','' pBrands \<noteq> join '','' brandList)"

definition needReseed :: "bool \<Rightarrow> string list \<Rightarrow> string list \<Rightarrow> string list \<Rightarrow> bool" where
  "needReseed reseed pIds pBrands brandList =
     (reseed \<or> pIds = [] \<or> brandsChanged pBrands brandList)"

section \<open>Merge and catalog assembly\<close>

fun mergeFresh :: "json list \<Rightarrow> json jsmap \<Rightarrow> json jsmap" where
  "mergeFresh [] m = m"
| "mergeFresh (p # ps) m =
     (let ident = idFor p in
      if ident = [] then mergeFresh ps m else mergeFresh ps (mapSet m ident p))"

record ostate =
  outIds :: "string list"
  used :: "string set"

definition pushId :: "string \<Rightarrow> ostate \<Rightarrow> ostate" where
  "pushId ident s = s\<lparr>used := insert ident (used s), outIds := outIds s @ [ident]\<rparr>"

text \<open>Step 1: the walk over the previous catalog's identifiers.\<close>

fun keepPrev :: "nat \<Rightarrow> json jsmap \<Rightarrow> string list \<Rightarrow> ostate \<Rightarrow> ostate" where
  "keepPrev mx merged [] s = s"
| "keepPrev mx merged (ident # ids) s =
     (if \<not> mapHas merged ident then keepPrev mx merged ids s
      else if ident \<in> used s then keepPrev mx merged ids s
      else (let s' = pushId ident s
            in if length (outIds s') \<ge> mx then s' else keepPrev mx merged ids s'))"

text \<open>Step 2: the walk over the fresh records.\<close>

fun fillFresh :: "nat \<Rightarrow> json list \<Rightarrow> ostate \<Rightarrow> ostate" where
  "fillFresh mx [] s = s"
| "fillFresh mx (p # ps) s =
     (if length (outIds s) \<ge> mx then s
      else (let ident = idFor p in
            if ident = [] \<or> ident \<in> used s then fillFresh mx ps s
            else fillFresh mx ps (pushId ident s)))"

text \<open>Step 3: the walk over the keys of the merged table.\<close>

fun fillMerged :: "nat \<Rightarrow> string list \<Rightarrow> ostate \<Rightarrow> ostate" where
  "fillMerged mx [] s = s"
| "fillMerged mx (ident # ids) s =
     (if length (outIds s) \<ge> mx then s
      else if ident \<in> used s then fillMerged mx ids s
      else fillMerged mx ids (pushId ident s))"

definition buildOutIds ::
  "nat \<Rightarrow> bool \<Rightarrow> string list \<Rightarrow> json jsmap \<Rightarrow> json list \<Rightarrow> ostate" where
  "buildOutIds mx reseeding pIds merged fresh =
     (let s0 = \<lparr>outIds = [], used = {}\<rparr>;
          s1 = (if \<not> reseeding then keepPrev mx merged pIds s0 else s0);
          s2 = fillFresh mx fresh s1
      in if length (outIds s2) < mx then fillMerged mx (mapKeys merged) s2 else s2)"

text \<open>\<open>outIds.map((id) => merged.get(id)).filter(Boolean)\<close>\<close>

definition outPerformersOf :: "json jsmap \<Rightarrow> string list \<Rightarrow> json list" where
  "outPerformersOf merged ids =
     map the (filter truthy (map (mapGet merged) ids))"

fun arraysEqual :: "string list \<Rightarrow> string list \<Rightarrow> bool" where
  "arraysEqual a b =
     (if length a \<noteq> length b then False
      else list_all (\<lambda>(x, y). x = y) (zip a b))"

section \<open>The run\<close>

text \<open>
  What a run leaves: the fresh records, the merged table, the reseed decision, the
  catalog identifier list (\<open>outIds\<close>), the records written, the two artifacts as
  JSON values, whether the identifier list changed, whether the catalog file is
  written, and the warnings in the order they were printed.  The performer table is
  written by every run.  The counts by brand and the closing lines on the console are
  not kept.  The two time stamps are read from the clock, one for each artifact.
\<close>

record result =
  fresh :: "json list"
  merged :: "json jsmap"
  reseeded :: bool
  catalogIds :: "string list"
  outPerformers :: "json list"
  performersFile :: json
  nextCat :: json
  idsChanged :: bool
  catalogWritten :: bool
  warnings :: "event list"

definition performersJson :: "string \<Rightarrow> string list \<Rightarrow> json list \<Rightarrow> json" where
  "performersJson now brandList ps =
     JObj [(''generatedAt'', JStr now),
           (''brands'', JArr (map JStr brandList)),
           (''count'', JNum (int (length ps))),
           (''performers'', JArr ps)]"

definition catalogJson :: "string \<Rightarrow> string list \<Rightarrow> nat \<Rightarrow> string list \<Rightarrow> json" where
  "catalogJson now brandList mx ids =
     JObj [(''generatedAt'', JStr now),
           (''brands'', JArr (map JStr brandList)),
           (''max'', JNum (int mx)),
           (''count'', JNum (int (length ids))),
           (''ids'', JArr (map JStr ids))]"

text \<open>Everything after the fetch loop: merge, catalog assembly, the two artifacts and
  the decision to write the catalog.\<close>

definition assemble ::
  "string list \<Rightarrow> nat \<Rightarrow> bool \<Rightarrow> json option \<Rightarrow> json option \<Rightarrow> string \<times> string
     \<Rightarrow> json list \<Rightarrow> event list \<Rightarrow> result" where
  "assemble brandList mx reseed prevPerf prevCat stamps fr evs =
     (let prevMap = loadPrev (prevArr prevPerf) [];
          pIds = prevIds prevCat;
          nr = needReseed reseed pIds (prevBrands prevCat) brandList;
          mg = mergeFresh fr prevMap;
          ids = outIds (buildOutIds mx nr pIds mg fr);
          ps = outPerformersOf mg ids;
          changed = (\<not> arraysEqual (take mx pIds) ids)
      in \<lparr>fresh = fr, merged = mg, reseeded = nr, catalogIds = ids, outPerformers = ps,
          performersFile = performersJson (fst stamps) brandList ps,
          nextCat = catalogJson (snd stamps) brandList mx ids,
          idsChanged = changed,
          catalogWritten = (nr \<or> changed \<or> \<not> truthy prevCat),
          warnings = evs\<rparr>)"

definition reconcile ::
  "upstream \<Rightarrow> string list \<Rightarrow> nat \<Rightarrow> bool \<Rightarrow> json option \<Rightarrow> json option \<Rightarrow> string \<times> string
     \<Rightarrow> error + result" where
  "reconcile net brandList mx reseed prevPerf prevCat stamps =
     (let ev0 = (if brandsChanged (prevBrands prevCat) brandList \<and> \<not> reseed
                 then [WarnBrandsChanged] else []);
          st0 = \<lparr>seen = {}, freshByBrand = initFresh brandList [], events = [], requests = 0\<rparr>
      in case fetchBrands net (quota mx brandList) brandList st0 of
           Inl e \<Rightarrow> Inl e
         | Inr st \<Rightarrow>
             Inr (assemble brandList mx reseed prevPerf prevCat stamps
                    (collectFresh brandList (freshByBrand st)) (ev0 @ events st)))"



text \<open>
  \<open>main\<close>: the credentials, \<open>--max\<close> (its \<open>Number(...)\<close>, an integer, or
  \<open>None\<close> for \<open>NaN\<close>), \<open>--reseed\<close>, \<open>--brands\<close>, and the three files as
  \<open>readJSONIfExists\<close> returns them (\<open>None\<close> for a file that is missing or does
  not parse).  A file read back holds the JSON value that was written to it.
\<close>

record input =
  apiKey :: string
  token :: string
  maxArg :: "int option"
  reseedFlag :: bool
  brandsArg :: string
  siteConfig :: "json option"
  perfFile :: "json option"
  catFile :: "json option"
  clock :: "string \<times> string"

definition maxOf :: "int option \<Rightarrow> nat" where
  "maxOf a =
     (let m = (case a of None \<Rightarrow> 10000 | Some n \<Rightarrow> if n = 0 then 10000 else n)
      in if m < 1 then 10000 else nat m)"

definition brandListOf :: "input \<Rightarrow> string list" where
  "brandListOf inp =
     (let desiredBrands = splitBrands (brandsArg inp)
      in if desiredBrands \<noteq> [] then desiredBrands
         else getDefaultBrandsFromConfig (siteConfig inp))"

definition main :: "upstream \<Rightarrow> input \<Rightarrow> error + result" where
  "main net inp =
     (if apiKey inp = [] \<or> token inp = [] then Inl MissingEnv
      else reconcile net (brandListOf inp) (maxOf (maxArg inp)) (reseedFlag inp)
             (perfFile inp) (catFile inp) (clock inp))"

section \<open>A sample run\<close>

text \<open>
  One brand \<open>x\<close> and \<open>--max 3\<close>.  The previous table holds the records 1 and 3 and
  a record with no identifier; the previous catalog lists 1, 2, 3 for the brands
  \<open>["x"]\<close>.  Page 1 of the upstream holds the record 4, a record with no identifier
  and a record whose \<open>itemId\<close> is blank; every later page is empty.
\<close>

definition sampleUpstream :: upstream where
  "sampleUpstream n brand page =
     (if page = 1
      then Response True 200 ''page 1''
             (Some (JObj [(''performers'',
                JArr [JObj [(''itemId'', JStr ''4'')],
                      JObj [(''name'', JStr ''anonymous'')],
                      JObj [(''itemId'', JStr ''  ''), (''id'', JStr ''5'')]])]))
      else Response True 200 ''empty page'' (Some (JObj [(''performers'', JArr [])])))"

definition samplePerformers :: "json option" where
  "samplePerformers =
     Some (JObj [(''generatedAt'', JStr ''t0''), (''brands'', JArr [JStr ''x'']),
                 (''count'', JNum 3),
                 (''performers'', JArr [JObj [(''itemId'', JStr ''1'')],
                                         JObj [(''itemId'', JStr ''3'')],
                                         JObj [(''name'', JStr ''anonymous'')]])])"

definition sampleCatalog :: "json option" where
  "sampleCatalog =
     Some (JObj [(''generatedAt'', JStr ''t0''), (''brands'', JArr [JStr ''x'']),
                 (''max'', JNum 3), (''count'', JNum 3),
                 (''ids'', JArr [JStr ''1'', JStr ''2'', JStr ''3''])])"


text \<open>
  An upstream with nothing to offer; a previous catalog of two identifiers, with their
  records, met by a run with \<open>--max 1\<close>; and a previous catalog that exists, as this
  script writes it, with an empty identifier list.
\<close>

definition silentUpstream :: upstream where
  "silentUpstream n brand page =
     Response True 200 ''empty page'' (Some (JObj [(''performers'', JArr [])]))"

definition twoCatalog :: "json option" where
  "twoCatalog = Some (catalogJson ''t0'' [''x''] 2 [''1'', ''2''])"

definition twoPerformers :: "json option" where
  "twoPerformers =
     Some (performersJson ''t0'' [''x'']
             [JObj [(''itemId'', JStr ''1'')], JObj [(''itemId'', JStr ''2'')]])"

definition shrunkRun :: "error + result" where
  "shrunkRun = reconcile silentUpstream [''x''] 1 False twoPerformers twoCatalog (''t1'', ''t2'')"

definition emptyCatalog :: "json option" where
  "emptyCatalog = Some (catalogJson ''t0'' [''x''] 1 [])"

definition emptyCatalogRun :: "error + result" where
  "emptyCatalogRun = reconcile silentUpstream [''x''] 1 False None emptyCatalog (''t1'', ''t2'')"




section \<open>Facts about insertion-ordered maps\<close>

lemma map_of_mapSet: "map_of (mapSet m k v) = (map_of m)(k \<mapsto> v)"
  by (induction m) (auto simp: fun_eq_iff)

lemma keys_mapSet:
  "map fst (mapSet m k v) = (if k \<in> set (map fst m) then map fst m else map fst m @ [k])"
  by (induction m) (force+)


lemma mapHas_mapSet: "mapHas (mapSet m k v) k' = (k' = k \<or> mapHas m k')"
  by (simp add: mapHas_def map_of_mapSet)

lemma mapHas_keys: "mapHas m k = (k \<in> set (mapKeys m))"
  by (simp add: mapHas_def mapKeys_def map_of_eq_None_iff)





section \<open>Quota shares (C3)\<close>




section \<open>The concrete retain-and-fill scenario (C6)\<close>

text \<open>
  C6.  The previous catalog is \<open>ids = ["1","2","3"]\<close> with brands \<open>["x"]\<close>; the
  previous performer table holds records for 1 and 3 only, so the merged table has no
  entry for 2; the upstream returns the single record 4 on page 1 of brand \<open>x\<close> and
  an empty page after it; \<open>max = 3\<close> and no reseed flag.  The run returns the catalog
  \<open>["1","3","4"]\<close>.
\<close>

theorem scenario_retain_then_fill:
  "map_sum id catalogIds
     (reconcile
        (\<lambda>n brand page.
           if page = 1
           then Response True 200 ''page with record 4''
                  (Some (JObj [(''performers'', JArr [JObj [(''itemId'', JStr ''4'')]])]))
           else Response True 200 ''empty page''
                  (Some (JObj [(''performers'', JArr [])])))
        [''x''] 3 False
        (Some (JObj [(''generatedAt'', JStr ''t0''), (''brands'', JArr [JStr ''x'']),
                     (''count'', JNum 2),
                     (''performers'', JArr [JObj [(''itemId'', JStr ''1'')],
                                             JObj [(''itemId'', JStr ''3'')]])]))
        (Some (JObj [(''generatedAt'', JStr ''t0''), (''brands'', JArr [JStr ''x'']),
                     (''max'', JNum 3), (''count'', JNum 3),
                     (''ids'', JArr [JStr ''1'', JStr ''2'', JStr ''3''])]))
        (''t1'', ''t2''))
   = Inr [''1'', ''3'', ''4'']"
  by code_simp

section \<open>The fetch loop\<close>

declare fetchPages.simps [simp del]

lemma fetchPage_not_rejected:
  "resp \<noteq> Rejected \<Longrightarrow> \<exists>arr evs. fetchPage resp brand page = Inr (arr, evs)"
  by (cases resp) (auto split: option.splits)

lemma absorb_effects [simp]:
  "requests (absorb w brand arr st) = requests st"
  "events (absorb w brand arr st) = events st"
  by (induction arr arbitrary: st) (auto simp: Let_def)

lemma brandFresh_pushFresh:
  "brandFresh (pushFresh m brand p) brand =
     (if mapHas m brand then brandFresh m brand @ [p] else [])"
  by (auto simp: brandFresh_def pushFresh_def map_of_mapSet mapHas_def mapGet_def
           split: option.splits)

lemma absorb_within_quota:
  "length (brandFresh (freshByBrand st) brand) < w \<Longrightarrow>
   length (brandFresh (freshByBrand (absorb w brand arr st)) brand) \<le> w"
proof (induction arr arbitrary: st)
  case Nil
  then show ?case by simp
next
  case (Cons p ps)
  then show ?case
    by (auto simp: Let_def brandFresh_pushFresh not_le)
qed


lemma fetchPages_total:
  "\<forall>n b p. net n b p \<noteq> Rejected \<Longrightarrow> \<exists>st'. fetchPages net w brand page st = Inr st'"
proof (induction net w brand page st rule: fetchPages.induct)
  case (1 net w brand page st)
  obtain arr evs where f: "fetchPage (net (requests st) brand page) brand page = Inr (arr, evs)"
    using fetchPage_not_rejected "1.prems" by blast
  show ?case
    using "1.IH"[OF _ f refl refl _ refl] "1.prems" f
    by (subst fetchPages.simps) (auto simp: Let_def)
qed

lemma fetchPages_requests:
  "fetchPages net w brand page st = Inr st' \<Longrightarrow>
   requests st \<le> requests st' \<and> requests st' \<le> requests st + (251 - page) + (if 250 < page then 1 else 0)"
proof (induction net w brand page st arbitrary: st' rule: fetchPages.induct)
  case (1 net w brand page st)
  show ?case
  proof (cases "length (brandFresh (freshByBrand st) brand) < w")
    case False
    with "1.prems" show ?thesis by (subst (asm) fetchPages.simps) auto
  next
    case True
    from "1.prems" True obtain arr evs where
      f: "fetchPage (net (requests st) brand page) brand page = Inr (arr, evs)"
      by (subst (asm) fetchPages.simps) (auto split: sum.splits)
    let ?st1 = "st\<lparr>events := events st @ evs, requests := Suc (requests st)\<rparr>"
    show ?thesis
    proof (cases "arr = [] \<or> 250 < page + 1")
      case True
      with "1.prems" f \<open>length (brandFresh (freshByBrand st) brand) < w\<close> show ?thesis
        by (subst (asm) fetchPages.simps) (auto simp: Let_def split: if_splits)
    next
      case False
      with "1.prems" f \<open>length (brandFresh (freshByBrand st) brand) < w\<close>
      have rec: "fetchPages net w brand (page + 1) (absorb w brand arr ?st1) = Inr st'"
        by (subst (asm) fetchPages.simps) (auto simp: Let_def split: if_splits)
      from "1.IH"[OF True f refl refl _ refl _ rec] False show ?thesis
        by auto
    qed
  qed
qed


lemma fetchPages_quota_met:
  "w \<le> length (brandFresh (freshByBrand st) brand) \<Longrightarrow> fetchPages net w brand page st = Inr st"
  by (subst fetchPages.simps) simp

lemma fetchPages_empty_page:
  "length (brandFresh (freshByBrand st) brand) < w \<Longrightarrow>
   fetchPage (net (requests st) brand page) brand page = Inr ([], evs) \<Longrightarrow>
   fetchPages net w brand page st =
     Inr (st\<lparr>events := events st @ evs, requests := Suc (requests st)\<rparr>)"
  by (subst fetchPages.simps) simp

lemma fetchPages_within_quota:
  "fetchPages net w brand page st = Inr st' \<Longrightarrow>
   length (brandFresh (freshByBrand st) brand) \<le> w \<Longrightarrow>
   length (brandFresh (freshByBrand st') brand) \<le> w"
proof (induction net w brand page st arbitrary: st' rule: fetchPages.induct)
  case (1 net w brand page st)
  show ?case
  proof (cases "length (brandFresh (freshByBrand st) brand) < w")
    case False
    with "1.prems" show ?thesis by (subst (asm) fetchPages.simps) auto
  next
    case True
    from "1.prems" True obtain arr evs where
      f: "fetchPage (net (requests st) brand page) brand page = Inr (arr, evs)"
      by (subst (asm) fetchPages.simps) (auto split: sum.splits)
    let ?st1 = "st\<lparr>events := events st @ evs, requests := Suc (requests st)\<rparr>"
    have a: "length (brandFresh (freshByBrand (absorb w brand arr ?st1)) brand) \<le> w"
      using True by (intro absorb_within_quota) simp
    show ?thesis
    proof (cases "arr = [] \<or> 250 < page + 1")
      case True
      with "1.prems" f a \<open>length (brandFresh (freshByBrand st) brand) < w\<close> show ?thesis
        by (subst (asm) fetchPages.simps) (auto simp: Let_def split: if_splits)
    next
      case False
      with "1.prems" f \<open>length (brandFresh (freshByBrand st) brand) < w\<close>
      have rec: "fetchPages net w brand (page + 1) (absorb w brand arr ?st1) = Inr st'"
        by (subst (asm) fetchPages.simps) (auto simp: Let_def split: if_splits)
      from "1.IH"[OF True f refl refl _ refl _ rec a] False show ?thesis
        by auto
    qed
  qed
qed

lemma fetchPages_stop:
  "fetchPages net w brand page st = Inr st' \<Longrightarrow>
   (st' = st \<and> w \<le> length (brandFresh (freshByBrand st) brand)) \<or>
   (requests st < requests st' \<and>
      (w \<le> length (brandFresh (freshByBrand st') brand) \<or>
       (\<exists>evs. fetchPage (net (requests st' - 1) brand (page + (requests st' - requests st) - 1))
                 brand (page + (requests st' - requests st) - 1) = Inr ([], evs)) \<or>
       250 < page + (requests st' - requests st)))"
proof (induction net w brand page st arbitrary: st' rule: fetchPages.induct)
  case (1 net w brand page st)
  show ?case
  proof (cases "length (brandFresh (freshByBrand st) brand) < w")
    case False
    with "1.prems" show ?thesis by (subst (asm) fetchPages.simps) auto
  next
    case True
    from "1.prems" True obtain arr evs where
      f: "fetchPage (net (requests st) brand page) brand page = Inr (arr, evs)"
      by (subst (asm) fetchPages.simps) (auto split: sum.splits)
    let ?st1 = "st\<lparr>events := events st @ evs, requests := Suc (requests st)\<rparr>"
    let ?st2 = "absorb w brand arr ?st1"
    show ?thesis
    proof (cases "arr = []")
      case True
      with "1.prems" f \<open>length (brandFresh (freshByBrand st) brand) < w\<close>
      have "st' = ?st1"
        by (subst (asm) fetchPages.simps) (auto simp: Let_def)
      with f True show ?thesis by auto
    next
      case ne: False
      show ?thesis
      proof (cases "250 < page + 1")
        case True
        with "1.prems" f ne \<open>length (brandFresh (freshByBrand st) brand) < w\<close>
        have "st' = ?st2"
          by (subst (asm) fetchPages.simps) (auto simp: Let_def)
        with True show ?thesis by auto
      next
        case False
        with "1.prems" f ne \<open>length (brandFresh (freshByBrand st) brand) < w\<close>
        have rec: "fetchPages net w brand (page + 1) ?st2 = Inr st'"
          by (subst (asm) fetchPages.simps) (auto simp: Let_def split: if_splits)
        have r2: "requests ?st2 = Suc (requests st)" by simp
        from "1.IH"[OF True f refl refl ne refl _ rec] False
        consider "st' = ?st2" "w \<le> length (brandFresh (freshByBrand ?st2) brand)"
          | "requests ?st2 < requests st'"
            "w \<le> length (brandFresh (freshByBrand st') brand) \<or>
             (\<exists>evs. fetchPage (net (requests st' - 1) brand (page + 1 + (requests st' - requests ?st2) - 1))
                 brand (page + 1 + (requests st' - requests ?st2) - 1) = Inr ([], evs)) \<or>
             250 < page + 1 + (requests st' - requests ?st2)"
          by auto
        then show ?thesis
        proof cases
          case 1
          then show ?thesis by simp
        next
          case 2
          have e: "page + 1 + (requests st' - requests ?st2) = page + (requests st' - requests st)"
            using 2(1) by simp
          from 2 show ?thesis unfolding e by simp
        qed
      qed
    qed
  qed
qed

lemma fetchBrands_total:
  "\<forall>n b p. net n b p \<noteq> Rejected \<Longrightarrow> \<exists>st'. fetchBrands net q bs st = Inr st'"
proof (induction bs arbitrary: st)
  case Nil
  then show ?case by simp
next
  case (Cons b bs)
  obtain st1 where "fetchPages net (want q b) b 1 st = Inr st1"
    using fetchPages_total[OF Cons.prems] by blast
  with Cons.IH[OF Cons.prems] show ?case by (simp add: Let_def)
qed

lemma reconcile_total:
  "\<forall>n b p. net n b p \<noteq> Rejected \<Longrightarrow>
   \<exists>r. reconcile net brandList mx reseed prevPerf prevCat stamps = Inr r"
  unfolding reconcile_def Let_def
  using fetchBrands_total[of net] by (metis (no_types, lifting) old.sum.simps(6))


section \<open>Failed page fetches (C7)\<close>

text \<open>
  C7.  A response that is not a success, or whose body does not parse as JSON, gives
  one warning and the empty record list for that request; the loop of the brand that
  asked for the page stops there with nothing added but the warning and the request;
  and a run with credentials in which every request gets a response, failed or not,
  returns its result rather than an error.
\<close>

theorem page_failure_recovered:
  assumes "\<not> ok \<or> parsed = None"
  shows "(\<exists>warning. warning \<in> {WarnHttp brand page status (take 140 txt),
                                 WarnParse brand page (take 140 txt)} \<and>
            fetchPage (Response ok status txt parsed) brand page = Inr ([], [warning]) \<and>
            (net (requests st) brand page = Response ok status txt parsed \<and>
             length (brandFresh (freshByBrand st) brand) < w \<longrightarrow>
               fetchPages net w brand page st =
                 Inr (st\<lparr>events := events st @ [warning], requests := Suc (requests st)\<rparr>))) \<and>
         ((\<forall>n b p. net n b p \<noteq> Rejected) \<and> apiKey inp \<noteq> [] \<and> token inp \<noteq> [] \<longrightarrow>
            (\<exists>r. main net inp = Inr r))"
proof -
  define warning where "warning =
    (if \<not> ok then WarnHttp brand page status (take 140 txt)
     else WarnParse brand page (take 140 txt))"
  have f: "fetchPage (Response ok status txt parsed) brand page = Inr ([], [warning])"
    using assms by (auto simp: warning_def)
  have mem: "warning \<in> {WarnHttp brand page status (take 140 txt),
                         WarnParse brand page (take 140 txt)}"
    by (simp add: warning_def)
  have loop: "fetchPages net w brand page st =
                Inr (st\<lparr>events := events st @ [warning], requests := Suc (requests st)\<rparr>)"
    if "net (requests st) brand page = Response ok status txt parsed"
       "length (brandFresh (freshByBrand st) brand) < w"
    using fetchPages_empty_page[OF that(2), of net page "[warning]"] f that(1) by simp
  have run: "\<exists>r. main net inp = Inr r"
    if "\<forall>n b p. net n b p \<noteq> Rejected" "apiKey inp \<noteq> []" "token inp \<noteq> []"
    using reconcile_total[OF that(1)] that(2,3) by (simp add: main_def)
  from f mem loop run show ?thesis by blast
qed

theorem page_failure_recovered_witness:
  "fetchPage (Response False 401 ''unauthorized'' None) ''awempire'' 1
     = Inr ([], [WarnHttp ''awempire'' 1 401 ''unauthorized'']) \<and>
   fetchPages (\<lambda>n b p. Response False 401 ''unauthorized'' None) 2 ''awempire'' 1
       \<lparr>seen = {}, freshByBrand = [(''awempire'', [])], events = [], requests = 0\<rparr>
     = Inr \<lparr>seen = {}, freshByBrand = [(''awempire'', [])],
            events = [WarnHttp ''awempire'' 1 401 ''unauthorized''], requests = 1\<rparr> \<and>
   (\<exists>r. main (\<lambda>n b p. Response False 401 ''unauthorized'' None)
           \<lparr>apiKey = ''key'', token = ''tok'', maxArg = Some 2, reseedFlag = False,
            brandsArg = ''awempire'', siteConfig = None, perfFile = None, catFile = None,
            clock = (''t1'', ''t2'')\<rparr> = Inr r)"
  using page_failure_recovered[of False None "''awempire''" 1 401 "''unauthorized''"
      "\<lambda>n b p. Response False 401 ''unauthorized'' None"
      "\<lparr>seen = {}, freshByBrand = [(''awempire'', [])], events = [], requests = 0\<rparr>" 2
      "\<lparr>apiKey = ''key'', token = ''tok'', maxArg = Some 2, reseedFlag = False,
            brandsArg = ''awempire'', siteConfig = None, perfFile = None, catFile = None,
            clock = (''t1'', ''t2'')\<rparr>"]
  by (auto simp: brandFresh_def mapGet_def)

section \<open>The bounds of the per-brand loop (C8)\<close>

text \<open>
  C8.  For a brand with quota \<open>w > 0\<close> the loop started at page 1 returns whenever
  every request gets a response; it makes at most 250 requests, never holds more than
  \<open>w\<close> records for the brand, and when it returns the quota is met, or the last page
  requested came back empty, or 250 pages were requested.  From any page on, it makes
  no request once the quota is met, and an empty page ends it at once with no record
  added and no error: in particular an empty first page.
\<close>

theorem brand_fetch_loop_stops:
  assumes "0 < w"
  shows "((\<forall>n b p. net n b p \<noteq> Rejected) \<longrightarrow> (\<exists>st'. fetchPages net w brand 1 st = Inr st')) \<and>
         (\<forall>st'. fetchPages net w brand 1 st = Inr st' \<longrightarrow>
            requests st' \<le> requests st + 250 \<and>
            (length (brandFresh (freshByBrand st) brand) \<le> w \<longrightarrow>
               length (brandFresh (freshByBrand st') brand) \<le> w) \<and>
            (w \<le> length (brandFresh (freshByBrand st') brand) \<or>
             (requests st < requests st' \<and>
              (\<exists>evs. fetchPage (net (requests st' - 1) brand (requests st' - requests st))
                        brand (requests st' - requests st) = Inr ([], evs))) \<or>
             requests st' = requests st + 250)) \<and>
         (\<forall>page s. w \<le> length (brandFresh (freshByBrand s) brand) \<longrightarrow>
            fetchPages net w brand page s = Inr s) \<and>
         (\<forall>page s evs. length (brandFresh (freshByBrand s) brand) < w \<and>
            fetchPage (net (requests s) brand page) brand page = Inr ([], evs) \<longrightarrow>
            fetchPages net w brand page s =
              Inr (s\<lparr>events := events s @ evs, requests := Suc (requests s)\<rparr>))"
proof -
  have fin: "\<exists>st'. fetchPages net w brand 1 st = Inr st'" if "\<forall>n b p. net n b p \<noteq> Rejected"
    using fetchPages_total[OF that] by blast
  have stop: "requests st' \<le> requests st + 250 \<and>
            (length (brandFresh (freshByBrand st) brand) \<le> w \<longrightarrow>
               length (brandFresh (freshByBrand st') brand) \<le> w) \<and>
            (w \<le> length (brandFresh (freshByBrand st') brand) \<or>
             (requests st < requests st' \<and>
              (\<exists>evs. fetchPage (net (requests st' - 1) brand (requests st' - requests st))
                        brand (requests st' - requests st) = Inr ([], evs))) \<or>
             requests st' = requests st + 250)"
    if r: "fetchPages net w brand 1 st = Inr st'" for st'
  proof -
    from fetchPages_requests[OF r] have b: "requests st \<le> requests st'" "requests st' \<le> requests st + 250"
      by auto
    have q: "length (brandFresh (freshByBrand st) brand) \<le> w \<longrightarrow>
               length (brandFresh (freshByBrand st') brand) \<le> w"
      using fetchPages_within_quota[OF r] by blast
    from fetchPages_stop[OF r] b have
      "w \<le> length (brandFresh (freshByBrand st') brand) \<or>
             (requests st < requests st' \<and>
              (\<exists>evs. fetchPage (net (requests st' - 1) brand (requests st' - requests st))
                        brand (requests st' - requests st) = Inr ([], evs))) \<or>
             requests st' = requests st + 250"
      by auto
    with b q show ?thesis by blast
  qed
  from fin stop fetchPages_quota_met fetchPages_empty_page show ?thesis
    by blast
qed

theorem brand_fetch_loop_stops_witness:
  "fetchPages (\<lambda>n b p. Response True 200 ''empty page'' (Some (JObj [(''performers'', JArr [])])))
       3 ''stripchat'' 1
       \<lparr>seen = {}, freshByBrand = [(''stripchat'', [])], events = [], requests = 0\<rparr>
     = Inr \<lparr>seen = {}, freshByBrand = [(''stripchat'', [])], events = [], requests = 1\<rparr>"
  using brand_fetch_loop_stops[of 3
      "\<lambda>n b p. Response True 200 ''empty page'' (Some (JObj [(''performers'', JArr [])]))"
      "''stripchat''"
      "\<lparr>seen = {}, freshByBrand = [(''stripchat'', [])], events = [], requests = 0\<rparr>"]
  by (auto simp: brandFresh_def mapGet_def pickArray_def)


section \<open>Merge and assembly\<close>

subsection \<open>Records and their identifiers\<close>

lemma idFor_nonempty_object: "idFor p \<noteq> [] \<Longrightarrow> \<exists>kvs. p = JObj kvs"
  by (cases p) (auto simp: idFor_def orElse_def String_js_def trim_def)

lemma idFor_truthy: "idFor p \<noteq> [] \<Longrightarrow> truthy (Some p)"
  using idFor_nonempty_object by fastforce

lemma set_mapSet: "set (mapSet m k v) \<subseteq> insert (k, v) (set m)"
  by (induction m) (auto split: if_splits)

lemma distinct_keys_mapSet: "distinct (map fst m) \<Longrightarrow> distinct (map fst (mapSet m k v))"
  by (simp add: keys_mapSet)

lemma mapKeys_mapSet: "set (mapKeys (mapSet m k v)) = insert k (set (mapKeys m))"
  by (auto simp: mapKeys_def keys_mapSet)

subsection \<open>The previous table and the merge\<close>

lemma mapSet_keyed:
  "\<forall>kv \<in> set m. idFor (snd kv) = fst kv \<and> fst kv \<noteq> [] \<Longrightarrow> idFor p \<noteq> [] \<Longrightarrow>
   \<forall>kv \<in> set (mapSet m (idFor p) p). idFor (snd kv) = fst kv \<and> fst kv \<noteq> []"
proof
  fix kv assume a: "\<forall>kv \<in> set m. idFor (snd kv) = fst kv \<and> fst kv \<noteq> []" "idFor p \<noteq> []"
    "kv \<in> set (mapSet m (idFor p) p)"
  then have "kv = (idFor p, p) \<or> kv \<in> set m"
    using set_mapSet[of m "idFor p" p] by blast
  with a(1,2) show "idFor (snd kv) = fst kv \<and> fst kv \<noteq> []" by fastforce
qed

lemma loadPrev_keyed:
  "\<forall>kv \<in> set m. idFor (snd kv) = fst kv \<and> fst kv \<noteq> [] \<Longrightarrow>
   \<forall>kv \<in> set (loadPrev ps m). idFor (snd kv) = fst kv \<and> fst kv \<noteq> []"
proof (induction ps arbitrary: m)
  case Nil
  then show ?case by simp
next
  case (Cons p ps)
  show ?case
  proof (cases "idFor p \<noteq> [] \<and> \<not> mapHas m (idFor p)")
    case True
    then have e: "loadPrev (p # ps) m = loadPrev ps (mapSet m (idFor p) p)"
      by (simp add: Let_def)
    show ?thesis unfolding e
      by (rule Cons.IH, rule mapSet_keyed[OF Cons.prems]) (simp add: True)
  next
    case False
    then have e: "loadPrev (p # ps) m = loadPrev ps m"
      by (auto simp: Let_def)
    show ?thesis unfolding e by (rule Cons.IH) (rule Cons.prems)
  qed
qed

lemma loadPrev_distinct:
  "distinct (map fst m) \<Longrightarrow> distinct (map fst (loadPrev ps m))"
  by (induction ps arbitrary: m) (auto simp: Let_def distinct_keys_mapSet)

lemma mergeFresh_keyed:
  "\<forall>kv \<in> set m. idFor (snd kv) = fst kv \<and> fst kv \<noteq> [] \<Longrightarrow>
   \<forall>kv \<in> set (mergeFresh ps m). idFor (snd kv) = fst kv \<and> fst kv \<noteq> []"
proof (induction ps arbitrary: m)
  case Nil
  then show ?case by simp
next
  case (Cons p ps)
  show ?case
  proof (cases "idFor p = []")
    case True
    then have e: "mergeFresh (p # ps) m = mergeFresh ps m"
      by (simp add: Let_def)
    show ?thesis unfolding e by (rule Cons.IH) (rule Cons.prems)
  next
    case False
    then have e: "mergeFresh (p # ps) m = mergeFresh ps (mapSet m (idFor p) p)"
      by (simp add: Let_def)
    show ?thesis unfolding e
      by (rule Cons.IH, rule mapSet_keyed[OF Cons.prems]) (rule False)
  qed
qed

lemma mergeFresh_distinct:
  "distinct (map fst m) \<Longrightarrow> distinct (map fst (mergeFresh ps m))"
  by (induction ps arbitrary: m) (auto simp: Let_def distinct_keys_mapSet)

lemma mergeFresh_keys:
  "set (mapKeys (mergeFresh ps m)) = set (mapKeys m) \<union> (idFor ` set ps - {[]})"
  by (induction ps arbitrary: m) (auto simp: Let_def mapKeys_mapSet)


subsection \<open>The three walks\<close>

lemma pushId_simps [simp]:
  "outIds (pushId i s) = outIds s @ [i]"
  "used (pushId i s) = insert i (used s)"
  by (simp_all add: pushId_def)

lemma keepPrev_inv:
  "used s = set (outIds s) \<Longrightarrow> distinct (outIds s) \<Longrightarrow>
   used (keepPrev mx mg ids s) = set (outIds (keepPrev mx mg ids s)) \<and>
   distinct (outIds (keepPrev mx mg ids s))"
  by (induction ids arbitrary: s) (auto simp: Let_def)


lemma keepPrev_subset:
  "set (outIds (keepPrev mx mg ids s)) \<subseteq> set (outIds s) \<union> {i \<in> set ids. mapHas mg i}"
proof (induction ids arbitrary: s)
  case Nil
  then show ?case by simp
next
  case (Cons i ids)
  from Cons.IH[of s] Cons.IH[of "pushId i s"] show ?case
    by (auto simp: Let_def)
qed



lemma fillFresh_extends:
  "\<exists>app. outIds (fillFresh mx ps s) = outIds s @ app \<and>
         set app \<subseteq> (idFor ` set ps - {[]}) - used s \<and>
         used (fillFresh mx ps s) = used s \<union> set app \<and>
         (mx \<le> length (outIds s) \<longrightarrow> app = [])"
proof (induction ps arbitrary: s)
  case Nil
  then show ?case by simp
next
  case (Cons p ps)
  show ?case
  proof (cases "mx \<le> length (outIds s)")
    case True
    then show ?thesis by simp
  next
    case full: False
    show ?thesis
    proof (cases "idFor p = [] \<or> idFor p \<in> used s")
      case True
      with Cons.IH[of s] full show ?thesis by (auto simp: Let_def)
    next
      case False
      from Cons.IH[of "pushId (idFor p) s"] obtain app where
        app: "outIds (fillFresh mx ps (pushId (idFor p) s)) = outIds s @ [idFor p] @ app"
             "set app \<subseteq> (idFor ` set ps - {[]}) - insert (idFor p) (used s)"
             "used (fillFresh mx ps (pushId (idFor p) s)) = insert (idFor p) (used s) \<union> set app"
        by auto
      have "outIds (fillFresh mx (p # ps) s) = outIds s @ (idFor p # app)"
        using False full app(1) by (simp add: Let_def)
      moreover have "set (idFor p # app) \<subseteq> (idFor ` set (p # ps) - {[]}) - used s"
        using False app(2) by auto
      moreover have "used (fillFresh mx (p # ps) s) = used s \<union> set (idFor p # app)"
        using False full app(3) by (auto simp: Let_def)
      ultimately show ?thesis using full by blast
    qed
  qed
qed

lemma fillFresh_complete:
  "length (outIds (fillFresh mx ps s)) < mx \<Longrightarrow>
   idFor ` set ps - {[]} \<subseteq> used (fillFresh mx ps s)"
proof (induction ps arbitrary: s)
  case Nil
  then show ?case by simp
next
  case (Cons p ps)
  obtain app where app: "outIds (fillFresh mx (p # ps) s) = outIds s @ app"
      "used (fillFresh mx (p # ps) s) = used s \<union> set app"
    using fillFresh_extends[of mx "p # ps" s] by blast
  with Cons.prems have notfull: "\<not> mx \<le> length (outIds s)" by simp
  show ?case
  proof (cases "idFor p = [] \<or> idFor p \<in> used s")
    case True
    with notfull have e: "fillFresh mx (p # ps) s = fillFresh mx ps s" by (simp add: Let_def)
    from Cons.IH[of s] Cons.prems e have "idFor ` set ps - {[]} \<subseteq> used (fillFresh mx ps s)" by simp
    moreover have "used s \<subseteq> used (fillFresh mx ps s)"
      using fillFresh_extends[of mx ps s] by blast
    ultimately show ?thesis using True e by auto
  next
    case False
    with notfull have e: "fillFresh mx (p # ps) s = fillFresh mx ps (pushId (idFor p) s)"
      by (simp add: Let_def)
    from Cons.IH[of "pushId (idFor p) s"] Cons.prems e
    have "idFor ` set ps - {[]} \<subseteq> used (fillFresh mx ps (pushId (idFor p) s))" by simp
    moreover have "used (pushId (idFor p) s) \<subseteq> used (fillFresh mx ps (pushId (idFor p) s))"
      using fillFresh_extends[of mx ps "pushId (idFor p) s"] by blast
    ultimately show ?thesis using e by auto
  qed
qed



lemma fillMerged_extends:
  "\<exists>app. outIds (fillMerged mx ids s) = outIds s @ app \<and>
         set app \<subseteq> set ids - used s \<and>
         used (fillMerged mx ids s) = used s \<union> set app \<and>
         (mx \<le> length (outIds s) \<longrightarrow> app = [])"
proof (induction ids arbitrary: s)
  case Nil
  then show ?case by simp
next
  case (Cons i ids)
  show ?case
  proof (cases "mx \<le> length (outIds s)")
    case True
    then show ?thesis by simp
  next
    case full: False
    show ?thesis
    proof (cases "i \<in> used s")
      case True
      with Cons.IH[of s] full show ?thesis by auto
    next
      case False
      from Cons.IH[of "pushId i s"] obtain app where
        app: "outIds (fillMerged mx ids (pushId i s)) = outIds s @ [i] @ app"
             "set app \<subseteq> set ids - insert i (used s)"
             "used (fillMerged mx ids (pushId i s)) = insert i (used s) \<union> set app"
        by auto
      have "outIds (fillMerged mx (i # ids) s) = outIds s @ (i # app)"
        using False full app(1) by simp
      moreover have "set (i # app) \<subseteq> set (i # ids) - used s"
        using False app(2) by auto
      moreover have "used (fillMerged mx (i # ids) s) = used s \<union> set (i # app)"
        using False full app(3) by auto
      ultimately show ?thesis using full by blast
    qed
  qed
qed


subsection \<open>Fresh records carry identifiers\<close>

lemma pushFresh_ids:
  "\<forall>bx \<in> set m. \<forall>p \<in> set (snd bx). idFor p \<noteq> [] \<Longrightarrow> idFor p \<noteq> [] \<Longrightarrow>
   \<forall>bx \<in> set (pushFresh m brand p). \<forall>p \<in> set (snd bx). idFor p \<noteq> []"
proof
  fix bx
  assume a: "\<forall>bx \<in> set m. \<forall>p \<in> set (snd bx). idFor p \<noteq> []" "idFor p \<noteq> []"
    and b: "bx \<in> set (pushFresh m brand p)"
  show "\<forall>p \<in> set (snd bx). idFor p \<noteq> []"
  proof (cases "mapGet m brand")
    case None
    with a b show ?thesis by (simp add: pushFresh_def)
  next
    case (Some xs)
    then have "(brand, xs) \<in> set m" by (simp add: mapGet_def map_of_SomeD)
    with a(1) have xs: "\<forall>p \<in> set xs. idFor p \<noteq> []" by fastforce
    from b Some have "bx = (brand, xs @ [p]) \<or> bx \<in> set m"
      using set_mapSet[of m brand "xs @ [p]"] by (auto simp: pushFresh_def)
    with a xs show ?thesis by auto
  qed
qed

lemma absorb_ids:
  "\<forall>bx \<in> set (freshByBrand st). \<forall>p \<in> set (snd bx). idFor p \<noteq> [] \<Longrightarrow>
   \<forall>bx \<in> set (freshByBrand (absorb w brand arr st)). \<forall>p \<in> set (snd bx). idFor p \<noteq> []"
proof (induction arr arbitrary: st)
  case Nil
  then show ?case by simp
next
  case (Cons p ps)
  show ?case
  proof (cases "idFor p = [] \<or> idFor p \<in> seen st")
    case True
    then have e: "absorb w brand (p # ps) st = absorb w brand ps st" by (auto simp: Let_def)
    show ?thesis unfolding e by (rule Cons.IH) (rule Cons.prems)
  next
    case False
    define st' where "st' = st\<lparr>seen := insert (idFor p) (seen st),
                      freshByBrand := pushFresh (freshByBrand st) brand p\<rparr>"
    have k: "\<forall>bx \<in> set (freshByBrand st'). \<forall>p \<in> set (snd bx). idFor p \<noteq> []"
      unfolding st'_def using pushFresh_ids[OF Cons.prems, of p brand] False by simp
    have e: "absorb w brand (p # ps) st = st' \<or> absorb w brand (p # ps) st = absorb w brand ps st'"
      using False by (auto simp: Let_def st'_def)
    from e k Cons.IH[OF k] show ?thesis by auto
  qed
qed

lemma fetchPages_ids:
  "fetchPages net w brand page st = Inr st' \<Longrightarrow>
   \<forall>bx \<in> set (freshByBrand st). \<forall>p \<in> set (snd bx). idFor p \<noteq> [] \<Longrightarrow>
   \<forall>bx \<in> set (freshByBrand st'). \<forall>p \<in> set (snd bx). idFor p \<noteq> []"
proof (induction net w brand page st arbitrary: st' rule: fetchPages.induct)
  case (1 net w brand page st)
  show ?case
  proof (cases "length (brandFresh (freshByBrand st) brand) < w")
    case False
    with "1.prems" show ?thesis by (subst (asm) fetchPages.simps) auto
  next
    case True
    from "1.prems" True obtain arr evs where
      f: "fetchPage (net (requests st) brand page) brand page = Inr (arr, evs)"
      by (subst (asm) fetchPages.simps) (auto split: sum.splits)
    let ?st1 = "st\<lparr>events := events st @ evs, requests := Suc (requests st)\<rparr>"
    let ?st2 = "absorb w brand arr ?st1"
    have a: "\<forall>bx \<in> set (freshByBrand ?st2). \<forall>p \<in> set (snd bx). idFor p \<noteq> []"
      by (rule absorb_ids) (use "1.prems"(2) in simp)
    from "1.prems"(1) f True
    consider "st' = ?st1" | "st' = ?st2"
      | "arr \<noteq> []" "\<not> 250 < page + 1" "fetchPages net w brand (page + 1) ?st2 = Inr st'"
      by (subst (asm) fetchPages.simps) (auto simp: Let_def split: if_splits)
    then show ?thesis
    proof cases
      case 1
      with "1.prems"(2) show ?thesis by simp
    next
      case 2
      with a show ?thesis by simp
    next
      case 3
      from "1.IH"[OF True f refl refl 3(1) refl 3(2) 3(3) a] show ?thesis .
    qed
  qed
qed

lemma fetchBrands_ids:
  "fetchBrands net q bs st = Inr st' \<Longrightarrow>
   \<forall>bx \<in> set (freshByBrand st). \<forall>p \<in> set (snd bx). idFor p \<noteq> [] \<Longrightarrow>
   \<forall>bx \<in> set (freshByBrand st'). \<forall>p \<in> set (snd bx). idFor p \<noteq> []"
proof (induction bs arbitrary: st)
  case Nil
  then show ?case by simp
next
  case (Cons b bs)
  show ?case
  proof (cases "want q b \<le> 0")
    case True
    with Cons.prems(1) have "fetchBrands net q bs st = Inr st'" by (simp add: Let_def)
    from Cons.IH[OF this Cons.prems(2)] show ?thesis .
  next
    case False
    with Cons.prems(1) obtain st1 where
      s: "fetchPages net (want q b) b 1 st = Inr st1" "fetchBrands net q bs st1 = Inr st'"
      by (auto simp: Let_def split: sum.splits)
    from Cons.IH[OF s(2) fetchPages_ids[OF s(1) Cons.prems(2)]] show ?thesis .
  qed
qed

lemma initFresh_empty:
  "\<forall>bx \<in> set m. snd bx = [] \<Longrightarrow> \<forall>bx \<in> set (initFresh bs m). snd bx = []"
proof (induction bs arbitrary: m)
  case Nil
  then show ?case by simp
next
  case (Cons b bs)
  have "\<forall>bx \<in> set (mapSet m b []). snd bx = []"
    using set_mapSet[of m b "[]"] Cons.prems by fastforce
  from Cons.IH[OF this] show ?case by simp
qed

lemma collectFresh_ids:
  "\<forall>bx \<in> set m. \<forall>p \<in> set (snd bx). idFor p \<noteq> [] \<Longrightarrow>
   \<forall>p \<in> set (collectFresh brandList m). idFor p \<noteq> []"
proof
  fix p
  assume a: "\<forall>bx \<in> set m. \<forall>p \<in> set (snd bx). idFor p \<noteq> []" and "p \<in> set (collectFresh brandList m)"
  then obtain b where b: "p \<in> set (brandFresh m b)"
    by (auto simp: collectFresh_def)
  then obtain xs where "mapGet m b = Some xs" "p \<in> set xs"
    by (cases "mapGet m b") (auto simp: brandFresh_def)
  then have "(b, xs) \<in> set m" by (simp add: mapGet_def map_of_SomeD)
  with a \<open>p \<in> set xs\<close> show "idFor p \<noteq> []" by fastforce
qed

lemma reconcile_cases:
  assumes "reconcile net brandList mx reseed prevPerf prevCat stamps = Inr r"
  obtains st where
    "fetchBrands net (quota mx brandList) brandList
       \<lparr>seen = {}, freshByBrand = initFresh brandList [], events = [], requests = 0\<rparr> = Inr st"
    "r = assemble brandList mx reseed prevPerf prevCat stamps
           (collectFresh brandList (freshByBrand st))
           ((if brandsChanged (prevBrands prevCat) brandList \<and> \<not> reseed
             then [WarnBrandsChanged] else []) @ events st)"
  using assms by (auto simp: reconcile_def Let_def split: sum.splits)

lemma reconcile_assemble:
  assumes "reconcile net brandList mx reseed prevPerf prevCat stamps = Inr r"
  shows "\<exists>fr evs. r = assemble brandList mx reseed prevPerf prevCat stamps fr evs \<and>
                  (\<forall>p \<in> set fr. idFor p \<noteq> [])"
proof -
  let ?st0 = "\<lparr>seen = {}, freshByBrand = initFresh brandList [], events = [], requests = 0\<rparr>"
  from assms obtain st where
    st: "fetchBrands net (quota mx brandList) brandList ?st0 = Inr st"
    and r: "r = assemble brandList mx reseed prevPerf prevCat stamps
                  (collectFresh brandList (freshByBrand st))
                  ((if brandsChanged (prevBrands prevCat) brandList \<and> \<not> reseed
                    then [WarnBrandsChanged] else []) @ events st)"
    by (rule reconcile_cases)
  have "\<forall>bx \<in> set (freshByBrand ?st0). snd bx = []"
    using initFresh_empty[of "[]" brandList] by simp
  then have "\<forall>bx \<in> set (freshByBrand ?st0). \<forall>p \<in> set (snd bx). idFor p \<noteq> []"
    by simp
  from fetchBrands_ids[OF st this] have "\<forall>p \<in> set (collectFresh brandList (freshByBrand st)). idFor p \<noteq> []"
    by (rule collectFresh_ids)
  with r show ?thesis by blast
qed

subsection \<open>The assembled catalog\<close>


lemma buildOutIds_subset:
  assumes "idFor ` set fr - {[]} \<subseteq> set (mapKeys mg)"
  shows "set (outIds (buildOutIds mx nr pIds mg fr)) \<subseteq> set (mapKeys mg)"
proof -
  define s0 where "s0 = \<lparr>outIds = [], used = {}\<rparr>"
  define s1 where "s1 = (if \<not> nr then keepPrev mx mg pIds s0 else s0)"
  define s2 where "s2 = fillFresh mx fr s1"
  define s3 where "s3 = (if length (outIds s2) < mx then fillMerged mx (mapKeys mg) s2 else s2)"
  have b: "buildOutIds mx nr pIds mg fr = s3"
    by (simp add: buildOutIds_def s0_def s1_def s2_def s3_def Let_def)
  have i1: "set (outIds s1) \<subseteq> set (mapKeys mg)"
    using keepPrev_subset[of mx mg pIds s0] by (auto simp: s1_def s0_def mapHas_keys)
  obtain app where "outIds s2 = outIds s1 @ app" "set app \<subseteq> (idFor ` set fr - {[]}) - used s1"
    using fillFresh_extends[of mx fr s1] unfolding s2_def by blast
  with i1 assms have i2: "set (outIds s2) \<subseteq> set (mapKeys mg)"
    by auto
  obtain app' where "outIds (fillMerged mx (mapKeys mg) s2) = outIds s2 @ app'"
      "set app' \<subseteq> set (mapKeys mg) - used s2"
    using fillMerged_extends[of mx "mapKeys mg" s2] by blast
  with i2 have i3: "set (outIds s3) \<subseteq> set (mapKeys mg)"
    unfolding s3_def by auto
  with b show ?thesis by simp
qed



lemma outPerformersOf_keyed:
  assumes "\<forall>kv \<in> set mg. idFor (snd kv) = fst kv \<and> fst kv \<noteq> []"
    and "set ids \<subseteq> set (mapKeys mg)"
  shows "outPerformersOf mg ids = map (\<lambda>i. the (mapGet mg i)) ids \<and>
         map idFor (outPerformersOf mg ids) = ids"
proof -
  have v: "\<exists>v. mapGet mg i = Some v \<and> idFor v = i \<and> truthy (Some v)" if "i \<in> set ids" for i
  proof -
    from that assms(2) have "mapHas mg i" by (auto simp: mapHas_keys)
    then obtain v where g: "mapGet mg i = Some v" by (auto simp: mapHas_def mapGet_def)
    then have "(i, v) \<in> set mg" by (simp add: mapGet_def map_of_SomeD)
    with assms(1) have "idFor v = i" "i \<noteq> []" by fastforce+
    with g idFor_truthy[of v] show ?thesis by simp
  qed
  then have "\<forall>i \<in> set ids. truthy (mapGet mg i)"
    by fastforce
  then have "filter truthy (map (mapGet mg) ids) = map (mapGet mg) ids"
    by (intro filter_True) auto
  then have a: "outPerformersOf mg ids = map (\<lambda>i. the (mapGet mg i)) ids"
    by (simp add: outPerformersOf_def)
  have "\<forall>i \<in> set ids. idFor (the (mapGet mg i)) = i"
    using v by fastforce
  then have "map idFor (map (\<lambda>i. the (mapGet mg i)) ids) = ids"
    by (simp add: map_idI)
  with a show ?thesis by simp
qed

lemma assemble_merged:
  "merged (assemble brandList mx reseed prevPerf prevCat stamps fr evs) =
     mergeFresh fr (loadPrev (prevArr prevPerf) [])"
  "fresh (assemble brandList mx reseed prevPerf prevCat stamps fr evs) = fr"
  "reseeded (assemble brandList mx reseed prevPerf prevCat stamps fr evs) =
     needReseed reseed (prevIds prevCat) (prevBrands prevCat) brandList"
  "catalogIds (assemble brandList mx reseed prevPerf prevCat stamps fr evs) =
     outIds (buildOutIds mx (needReseed reseed (prevIds prevCat) (prevBrands prevCat) brandList)
               (prevIds prevCat) (mergeFresh fr (loadPrev (prevArr prevPerf) [])) fr)"
  "outPerformers (assemble brandList mx reseed prevPerf prevCat stamps fr evs) =
     outPerformersOf (mergeFresh fr (loadPrev (prevArr prevPerf) []))
       (catalogIds (assemble brandList mx reseed prevPerf prevCat stamps fr evs))"
  "performersFile (assemble brandList mx reseed prevPerf prevCat stamps fr evs) =
     performersJson (fst stamps) brandList
       (outPerformers (assemble brandList mx reseed prevPerf prevCat stamps fr evs))"
  "nextCat (assemble brandList mx reseed prevPerf prevCat stamps fr evs) =
     catalogJson (snd stamps) brandList mx
       (catalogIds (assemble brandList mx reseed prevPerf prevCat stamps fr evs))"
  "warnings (assemble brandList mx reseed prevPerf prevCat stamps fr evs) = evs"
  by (simp_all add: assemble_def Let_def)

lemma merged_keyed:
  "\<forall>kv \<in> set (mergeFresh fr (loadPrev ps [])). idFor (snd kv) = fst kv \<and> fst kv \<noteq> []"
  by (rule mergeFresh_keyed, rule loadPrev_keyed) simp

lemma merged_covers_fresh:
  "idFor ` set fr - {[]} \<subseteq> set (mapKeys (mergeFresh fr m))"
  by (simp add: mergeFresh_keys)

lemma assemble_ids_in_merged:
  "set (catalogIds (assemble brandList mx reseed prevPerf prevCat stamps fr evs))
     \<subseteq> set (mapKeys (merged (assemble brandList mx reseed prevPerf prevCat stamps fr evs)))"
  unfolding assemble_merged by (rule buildOutIds_subset) (rule merged_covers_fresh)

section \<open>Size and uniqueness of the catalog (C1)\<close>



section \<open>The written performer table (C9)\<close>

text \<open>
  C9.  The performer table that is written holds, for each identifier of the final
  catalog list and in that order, the record the merged table has for it, and nothing
  else: the identifiers of the written records are the catalog list itself.  Its
  \<open>count\<close> field is the number of records written.
\<close>

theorem written_table_matches_catalog:
  assumes "reconcile net brandList mx reseed prevPerf prevCat stamps = Inr r"
  shows "outPerformers r = map (\<lambda>i. the (mapGet (merged r) i)) (catalogIds r) \<and>
         (\<forall>i \<in> set (catalogIds r). mapHas (merged r) i) \<and>
         map idFor (outPerformers r) = catalogIds r \<and>
         getProp (Some (performersFile r)) ''performers'' = Some (JArr (outPerformers r)) \<and>
         getProp (Some (performersFile r)) ''count''
           = Some (JNum (int (length (outPerformers r))))"
proof -
  from reconcile_assemble[OF assms] obtain fr evs where
    r: "r = assemble brandList mx reseed prevPerf prevCat stamps fr evs"
    by blast
  have sub: "set (catalogIds r) \<subseteq> set (mapKeys (merged r))"
    unfolding r by (rule assemble_ids_in_merged)
  have keyed: "\<forall>kv \<in> set (merged r). idFor (snd kv) = fst kv \<and> fst kv \<noteq> []"
    unfolding r assemble_merged by (rule merged_keyed)
  have op: "outPerformers r = outPerformersOf (merged r) (catalogIds r)"
    unfolding r by (simp add: assemble_merged)
  from outPerformersOf_keyed[OF keyed sub]
  have a: "outPerformers r = map (\<lambda>i. the (mapGet (merged r) i)) (catalogIds r)"
    and b: "map idFor (outPerformers r) = catalogIds r"
    unfolding op by blast+
  have c: "\<forall>i \<in> set (catalogIds r). mapHas (merged r) i"
    using sub by (auto simp: mapHas_keys)
  have pf: "performersFile r = performersJson (fst stamps) brandList (outPerformers r)"
    unfolding r by (simp add: assemble_merged)
  have d: "getProp (Some (performersFile r)) ''performers'' = Some (JArr (outPerformers r))"
    unfolding pf by (simp add: performersJson_def)
  have e: "getProp (Some (performersFile r)) ''count'' = Some (JNum (int (length (outPerformers r))))"
    unfolding pf by (simp add: performersJson_def)
  from a b c d e show ?thesis by blast
qed

theorem written_table_matches_catalog_witness:
  "\<exists>r. reconcile sampleUpstream [''x''] 3 False samplePerformers sampleCatalog (''t1'', ''t2'')
         = Inr r \<and>
       outPerformers r = [JObj [(''itemId'', JStr ''1'')], JObj [(''itemId'', JStr ''3'')],
                          JObj [(''itemId'', JStr ''4'')]] \<and>
       map idFor (outPerformers r) = catalogIds r \<and>
       getProp (Some (performersFile r)) ''count'' = Some (JNum 3)"
proof -
  let ?run = "reconcile sampleUpstream [''x''] 3 False samplePerformers sampleCatalog
                (''t1'', ''t2'')"
  have "\<not> isl ?run" by code_simp
  then obtain r where r: "?run = Inr r"
    by (cases ?run) auto
  have "outPerformers (projr ?run) =
          [JObj [(''itemId'', JStr ''1'')], JObj [(''itemId'', JStr ''3'')],
           JObj [(''itemId'', JStr ''4'')]]"
    by code_simp
  with r have o: "outPerformers r =
          [JObj [(''itemId'', JStr ''1'')], JObj [(''itemId'', JStr ''3'')],
           JObj [(''itemId'', JStr ''4'')]]"
    by simp
  from written_table_matches_catalog[OF r]
  have m: "map idFor (outPerformers r) = catalogIds r"
    and c: "getProp (Some (performersFile r)) ''count''
              = Some (JNum (int (length (outPerformers r))))"
    by blast+
  from c o have "getProp (Some (performersFile r)) ''count'' = Some (JNum 3)"
    by simp
  with r o m show ?thesis by blast
qed

section \<open>Records without an identifier (C10)\<close>

text \<open>
  C10.  A record for which \<open>idFor\<close> gives the empty string (no truthy \<open>itemId\<close> or
  \<open>id\<close>, or the one chosen trims to nothing) is in none of: the fresh accumulation,
  the merged table, the written performer table.  Every key of the merged table and
  every identifier of the catalog list, as it is written to the catalog artifact, is a
  non-empty string.
\<close>

theorem records_without_identifier_excluded:
  assumes "reconcile net brandList mx reseed prevPerf prevCat stamps = Inr r"
  shows "(\<forall>p. idFor p = [] \<longrightarrow>
            p \<notin> set (fresh r) \<and> p \<notin> snd ` set (merged r) \<and> p \<notin> set (outPerformers r)) \<and>
         (\<forall>k \<in> set (mapKeys (merged r)). k \<noteq> []) \<and>
         (\<forall>i \<in> set (catalogIds r). i \<noteq> []) \<and>
         getProp (Some (nextCat r)) ''ids'' = Some (JArr (map JStr (catalogIds r)))"
proof -
  from reconcile_assemble[OF assms] obtain fr evs where
    r: "r = assemble brandList mx reseed prevPerf prevCat stamps fr evs"
    and fr: "\<forall>p \<in> set fr. idFor p \<noteq> []"
    by blast
  have f: "fresh r = fr" unfolding r by (simp add: assemble_merged)
  have sub: "set (catalogIds r) \<subseteq> set (mapKeys (merged r))"
    unfolding r by (rule assemble_ids_in_merged)
  have keyed: "\<forall>kv \<in> set (merged r). idFor (snd kv) = fst kv \<and> fst kv \<noteq> []"
    unfolding r assemble_merged by (rule merged_keyed)
  have op: "outPerformers r = outPerformersOf (merged r) (catalogIds r)"
    unfolding r by (simp add: assemble_merged)
  have keys: "\<forall>k \<in> set (mapKeys (merged r)). k \<noteq> []"
    using keyed by (auto simp: mapKeys_def)
  with sub have ids: "\<forall>i \<in> set (catalogIds r). i \<noteq> []" by blast
  from outPerformersOf_keyed[OF keyed sub]
  have "map idFor (outPerformers r) = catalogIds r" unfolding op by blast
  then have "idFor ` set (outPerformers r) = set (catalogIds r)"
    by (metis set_map)
  with ids have outp: "\<forall>p \<in> set (outPerformers r). idFor p \<noteq> []" by auto
  have mg: "\<forall>p \<in> snd ` set (merged r). idFor p \<noteq> []"
    using keyed by auto
  have cat: "getProp (Some (nextCat r)) ''ids'' = Some (JArr (map JStr (catalogIds r)))"
    unfolding r by (simp add: assemble_merged catalogJson_def)
  from fr f outp mg keys ids cat show ?thesis by blast
qed

theorem records_without_identifier_excluded_witness:
  "\<exists>r. reconcile sampleUpstream [''x''] 3 False samplePerformers sampleCatalog (''t1'', ''t2'')
         = Inr r \<and>
       idFor (JObj [(''name'', JStr ''anonymous'')]) = [] \<and>
       idFor (JObj [(''itemId'', JStr ''  ''), (''id'', JStr ''5'')]) = [] \<and>
       JObj [(''name'', JStr ''anonymous'')] \<notin> set (fresh r) \<and>
       JObj [(''itemId'', JStr ''  ''), (''id'', JStr ''5'')] \<notin> set (fresh r) \<and>
       JObj [(''name'', JStr ''anonymous'')] \<notin> snd ` set (merged r) \<and>
       JObj [(''name'', JStr ''anonymous'')] \<notin> set (outPerformers r) \<and>
       mapKeys (merged r) = [''1'', ''3'', ''4'']"
proof -
  let ?run = "reconcile sampleUpstream [''x''] 3 False samplePerformers sampleCatalog
                (''t1'', ''t2'')"
  have "\<not> isl ?run" by code_simp
  then obtain r where r: "?run = Inr r"
    by (cases ?run) auto
  have k: "mapKeys (merged (projr ?run)) = [''1'', ''3'', ''4'']"
    by code_simp
  have a: "idFor (JObj [(''name'', JStr ''anonymous'')]) = []"
    by code_simp
  have b: "idFor (JObj [(''itemId'', JStr ''  ''), (''id'', JStr ''5'')]) = []"
    by code_simp
  from records_without_identifier_excluded[OF r] a b k r show ?thesis by simp
qed

section \<open>Retained identifiers (C2)\<close>

lemma remdups_snoc: "remdups (ys @ [x]) = filter (\<lambda>y. y \<noteq> x) (remdups ys) @ [x]"
  by (induction ys) auto

lemma firsts_Cons:
  "rev (remdups (rev (x # xs))) = x # filter (\<lambda>y. y \<noteq> x) (rev (remdups (rev xs)))"
  by (simp add: remdups_snoc rev_filter)

lemma keepPrev_exact:
  "length (outIds s) < mx \<Longrightarrow>
   outIds (keepPrev mx mg ids s) =
     outIds s @ take (mx - length (outIds s))
                  (filter (\<lambda>i. mapHas mg i \<and> i \<notin> used s) (rev (remdups (rev ids))))"
proof (induction ids arbitrary: s)
  case Nil
  then show ?case by simp
next
  case (Cons i ids)
  let ?F = "rev (remdups (rev ids))"
  show ?case
  proof (cases "mapHas mg i \<and> i \<notin> used s")
    case False
    then have e: "keepPrev mx mg (i # ids) s = keepPrev mx mg ids s" by auto
    have "filter (\<lambda>j. mapHas mg j \<and> j \<notin> used s) (i # filter (\<lambda>y. y \<noteq> i) ?F)
            = filter (\<lambda>j. mapHas mg j \<and> j \<notin> used s) ?F"
      using False by (auto intro: filter_cong)
    with Cons.IH[OF Cons.prems] e show ?thesis
      by (simp only: firsts_Cons)
  next
    case True
    have f: "filter (\<lambda>j. mapHas mg j \<and> j \<notin> used s) (i # filter (\<lambda>y. y \<noteq> i) ?F)
            = i # filter (\<lambda>j. mapHas mg j \<and> j \<notin> insert i (used s)) ?F"
      using True by (auto intro: filter_cong)
    show ?thesis
    proof (cases "mx \<le> Suc (length (outIds s))")
      case True
      with Cons.prems have m: "mx - length (outIds s) = Suc 0" by simp
      from \<open>mapHas mg i \<and> i \<notin> used s\<close> True
      have "outIds (keepPrev mx mg (i # ids) s) = outIds s @ [i]"
        by (simp add: Let_def)
      then show ?thesis
        by (simp only: firsts_Cons f m) simp
    next
      case False
      then have l: "length (outIds (pushId i s)) < mx" by simp
      from \<open>mapHas mg i \<and> i \<notin> used s\<close> False
      have e: "keepPrev mx mg (i # ids) s = keepPrev mx mg ids (pushId i s)"
        by (simp add: Let_def)
      have m: "mx - length (outIds s) = Suc (mx - length (outIds (pushId i s)))"
        using False by simp
      from Cons.IH[OF l] show ?thesis
        unfolding e by (simp only: firsts_Cons f m) simp
    qed
  qed
qed

lemma buildOutIds_retained:
  assumes mx: "1 \<le> mx" and nr: "nr \<longrightarrow> pIds = []"
    and fr: "idFor ` set fr - {[]} \<subseteq> set (mapKeys mg)"
  shows "\<exists>rest. outIds (buildOutIds mx nr pIds mg fr) =
                  take mx (filter (mapHas mg) (rev (remdups (rev pIds)))) @ rest \<and>
                set rest \<inter> set pIds = {}"
proof -
  define kept where "kept = take mx (filter (mapHas mg) (rev (remdups (rev pIds))))"
  define s0 where "s0 = \<lparr>outIds = [], used = {}\<rparr>"
  define s1 where "s1 = (if \<not> nr then keepPrev mx mg pIds s0 else s0)"
  define s2 where "s2 = fillFresh mx fr s1"
  define s3 where "s3 = (if length (outIds s2) < mx then fillMerged mx (mapKeys mg) s2 else s2)"
  have b: "buildOutIds mx nr pIds mg fr = s3"
    by (simp add: buildOutIds_def s0_def s1_def s2_def s3_def Let_def)
  have o1: "outIds s1 = kept"
  proof (cases nr)
    case True
    with nr show ?thesis by (simp add: s1_def s0_def kept_def)
  next
    case False
    have "length (outIds s0) < mx" using mx by (simp add: s0_def)
    from keepPrev_exact[OF this, of mg pIds] False show ?thesis
      by (simp add: s1_def s0_def kept_def)
  qed
  have u1: "used s1 = set (outIds s1)"
    using keepPrev_inv[of s0 mx mg pIds] by (simp add: s1_def s0_def)
  obtain app1 where a1: "outIds s2 = outIds s1 @ app1"
      "set app1 \<subseteq> (idFor ` set fr - {[]}) - used s1" "used s2 = used s1 \<union> set app1"
      "mx \<le> length (outIds s1) \<longrightarrow> app1 = []"
    using fillFresh_extends[of mx fr s1] unfolding s2_def by blast
  obtain app2 where a2: "outIds s3 = outIds s2 @ app2"
      "set app2 \<subseteq> set (mapKeys mg) - used s2" "\<not> length (outIds s2) < mx \<longrightarrow> app2 = []"
  proof (cases "length (outIds s2) < mx")
    case True
    then show ?thesis
      using fillMerged_extends[of mx "mapKeys mg" s2] that unfolding s3_def by auto
  next
    case False
    then show ?thesis using that[of "[]"] by (simp add: s3_def)
  qed
  have out: "outIds s3 = kept @ (app1 @ app2)"
    using a1(1) a2(1) o1 by simp
  have disj: "set (app1 @ app2) \<inter> set pIds = {}"
  proof (cases "length kept < mx")
    case False
    with a1(4) o1 have "app1 = []" by simp
    with a1(1) a2(3) o1 False have "app2 = []" by simp
    with \<open>app1 = []\<close> show ?thesis by simp
  next
    case True
    then have k: "kept = filter (mapHas mg) (rev (remdups (rev pIds)))"
      unfolding kept_def by (metis length_take min.strict_order_iff min_def take_all_iff linorder_not_less)
    then have sk: "set kept = {i \<in> set pIds. mapHas mg i}" by auto
    have "x \<notin> set pIds" if "x \<in> set (app1 @ app2)" for x
    proof -
      from that a1(2,3) a2(2) fr have "x \<in> set (mapKeys mg)" "x \<notin> used s1" by auto
      with u1 o1 sk show ?thesis by (auto simp: mapHas_keys)
    qed
    then show ?thesis by blast
  qed
  from b out disj show ?thesis unfolding kept_def by blast
qed

text \<open>
  C2, as amended.  With no reseed flag and no brand change (and \<open>max\<close> at least 1, as
  the script guarantees), the new catalog begins with the identifiers of the previous
  catalog that are keys of the merged table, each once, in the previous order, cut to
  the first \<open>max\<close> of them; whatever follows is not an identifier of the previous
  catalog.
\<close>

theorem retained_identifiers_keep_order:
  assumes "reconcile net brandList mx reseed prevPerf prevCat stamps = Inr r"
    and "\<not> reseed" and "\<not> brandsChanged (prevBrands prevCat) brandList" and "1 \<le> mx"
  shows "\<exists>rest. catalogIds r =
                  take mx (filter (mapHas (merged r)) (rev (remdups (rev (prevIds prevCat)))))
                    @ rest \<and>
                set rest \<inter> set (prevIds prevCat) = {}"
proof -
  from reconcile_assemble[OF assms(1)] obtain fr evs where
    r: "r = assemble brandList mx reseed prevPerf prevCat stamps fr evs"
    by blast
  have nr: "needReseed reseed (prevIds prevCat) (prevBrands prevCat) brandList
              \<longrightarrow> prevIds prevCat = []"
    using assms(2,3) by (simp add: needReseed_def)
  show ?thesis
    unfolding r assemble_merged
    by (rule buildOutIds_retained[OF assms(4) nr merged_covers_fresh])
qed


theorem retained_identifiers_keep_order_witness:
  "\<exists>r. reconcile sampleUpstream [''x''] 3 False samplePerformers sampleCatalog (''t1'', ''t2'')
         = Inr r \<and>
       prevIds sampleCatalog = [''1'', ''2'', ''3''] \<and>
       take 3 (filter (mapHas (merged r)) (rev (remdups (rev (prevIds sampleCatalog)))))
         = [''1'', ''3''] \<and>
       catalogIds r = [''1'', ''3''] @ [''4''] \<and>
       set [''4''] \<inter> set (prevIds sampleCatalog) = {}"
proof -
  let ?run = "reconcile sampleUpstream [''x''] 3 False samplePerformers sampleCatalog
                (''t1'', ''t2'')"
  have "\<not> isl ?run" by code_simp
  then obtain r where r: "?run = Inr r"
    by (cases ?run) auto
  have p: "prevIds sampleCatalog = [''1'', ''2'', ''3'']" by code_simp
  have h: "\<not> brandsChanged (prevBrands sampleCatalog) [''x'']" by code_simp
  have "catalogIds (projr ?run) = [''1'', ''3'', ''4'']" by code_simp
  with r have c: "catalogIds r = [''1'', ''3'', ''4'']" by simp
  have "mapKeys (merged (projr ?run)) = [''1'', ''3'', ''4'']" by code_simp
  with r have k: "mapKeys (merged r) = [''1'', ''3'', ''4'']" by simp
  have t: "take 3 (filter (mapHas (merged r)) (rev (remdups (rev (prevIds sampleCatalog)))))
         = [''1'', ''3'']"
    by (simp add: p mapHas_keys k)
  from retained_identifiers_keep_order[OF r _ h] obtain rest where
    "catalogIds r = take 3 (filter (mapHas (merged r))
        (rev (remdups (rev (prevIds sampleCatalog))))) @ rest"
    "set rest \<inter> set (prevIds sampleCatalog) = {}"
    by auto
  with t c have "rest = [''4'']" "set [''4''] \<inter> set (prevIds sampleCatalog) = {}" by auto
  with r p t c show ?thesis by auto
qed

text \<open>
  As stated, the claim promises every retained identifier a place in the new catalog.
  A run with \<open>--max 1\<close> over a previous catalog \<open>["1","2"]\<close> whose records are both
  in the merged table keeps 1 and drops 2: it does not reseed, and 2 is in both.
\<close>

theorem retained_identifier_dropped_counterexample:
  "\<not> isl shrunkRun \<and>
   \<not> reseeded (projr shrunkRun) \<and>
   prevBrands twoCatalog = [''x''] \<and>
   prevIds twoCatalog = [''1'', ''2''] \<and>
   mapHas (merged (projr shrunkRun)) ''2'' \<and>
   catalogIds (projr shrunkRun) = [''1'']"
  by code_simp

section \<open>The reseed decision (C4)\<close>

lemma fetchPage_events:
  "fetchPage resp brand page = Inr (arr, evs) \<Longrightarrow> WarnBrandsChanged \<notin> set evs"
  by (cases resp) (auto split: if_splits option.splits)

lemma fetchPages_events:
  "fetchPages net w brand page st = Inr st' \<Longrightarrow>
   WarnBrandsChanged \<notin> set (events st) \<Longrightarrow> WarnBrandsChanged \<notin> set (events st')"
proof (induction net w brand page st arbitrary: st' rule: fetchPages.induct)
  case (1 net w brand page st)
  show ?case
  proof (cases "length (brandFresh (freshByBrand st) brand) < w")
    case False
    with "1.prems" show ?thesis by (subst (asm) fetchPages.simps) auto
  next
    case True
    from "1.prems" True obtain arr evs where
      f: "fetchPage (net (requests st) brand page) brand page = Inr (arr, evs)"
      by (subst (asm) fetchPages.simps) (auto split: sum.splits)
    let ?st1 = "st\<lparr>events := events st @ evs, requests := Suc (requests st)\<rparr>"
    let ?st2 = "absorb w brand arr ?st1"
    have a: "WarnBrandsChanged \<notin> set (events ?st2)"
      using fetchPage_events[OF f] "1.prems"(2) by simp
    from "1.prems"(1) f True
    consider "st' = ?st1" | "st' = ?st2"
      | "arr \<noteq> []" "\<not> 250 < page + 1" "fetchPages net w brand (page + 1) ?st2 = Inr st'"
      by (subst (asm) fetchPages.simps) (auto simp: Let_def split: if_splits)
    then show ?thesis
    proof cases
      case 1
      with a show ?thesis by simp
    next
      case 2
      with a show ?thesis by simp
    next
      case 3
      from "1.IH"[OF True f refl refl 3(1) refl 3(2) 3(3) a] show ?thesis .
    qed
  qed
qed

lemma fetchBrands_events:
  "fetchBrands net q bs st = Inr st' \<Longrightarrow>
   WarnBrandsChanged \<notin> set (events st) \<Longrightarrow> WarnBrandsChanged \<notin> set (events st')"
proof (induction bs arbitrary: st)
  case Nil
  then show ?case by simp
next
  case (Cons b bs)
  show ?case
  proof (cases "want q b \<le> 0")
    case True
    with Cons.prems(1) have "fetchBrands net q bs st = Inr st'" by (simp add: Let_def)
    from Cons.IH[OF this Cons.prems(2)] show ?thesis .
  next
    case False
    with Cons.prems(1) obtain st1 where
      s: "fetchPages net (want q b) b 1 st = Inr st1" "fetchBrands net q bs st1 = Inr st'"
      by (auto simp: Let_def split: sum.splits)
    from Cons.IH[OF s(2) fetchPages_events[OF s(1) Cons.prems(2)]] show ?thesis .
  qed
qed

text \<open>
  C4, as amended.  The run reseeds exactly when the flag is set, or the previous catalog
  gives no identifiers, or it records a non-empty brand list whose comma-joined text is
  not that of the current brand list; the warning is in the log exactly in the last
  case without the flag.  A catalog that is missing or unreadable gives no identifiers
  and no brands.  A reseeding run builds the catalog as if there were no previous
  identifiers at all.
\<close>

theorem reseed_decision:
  assumes "reconcile net brandList mx reseed prevPerf prevCat stamps = Inr r"
  shows "(reseeded r \<longleftrightarrow>
            reseed \<or> prevIds prevCat = [] \<or>
            (prevBrands prevCat \<noteq> [] \<and>
             join '','' (prevBrands prevCat) \<noteq> join '','' brandList)) \<and>
         (WarnBrandsChanged \<in> set (warnings r) \<longleftrightarrow>
            prevBrands prevCat \<noteq> [] \<and>
            join '','' (prevBrands prevCat) \<noteq> join '','' brandList \<and> \<not> reseed) \<and>
         (\<not> truthy prevCat \<longrightarrow> prevIds prevCat = [] \<and> prevBrands prevCat = []) \<and>
         (reseeded r \<longrightarrow>
            catalogIds r = outIds (buildOutIds mx True [] (merged r) (fresh r)))"
proof -
  let ?ev0 = "if brandsChanged (prevBrands prevCat) brandList \<and> \<not> reseed
              then [WarnBrandsChanged] else []"
  from assms obtain st where
    st: "fetchBrands net (quota mx brandList) brandList
           \<lparr>seen = {}, freshByBrand = initFresh brandList [], events = [], requests = 0\<rparr> = Inr st"
    and r: "r = assemble brandList mx reseed prevPerf prevCat stamps
                  (collectFresh brandList (freshByBrand st)) (?ev0 @ events st)"
    by (rule reconcile_cases)
  have a: "reseeded r \<longleftrightarrow>
            reseed \<or> prevIds prevCat = [] \<or>
            (prevBrands prevCat \<noteq> [] \<and>
             join '','' (prevBrands prevCat) \<noteq> join '','' brandList)"
    unfolding r by (simp add: assemble_merged needReseed_def brandsChanged_def)
  have "WarnBrandsChanged \<notin> set (events st)"
    using fetchBrands_events[OF st] by simp
  then have b: "WarnBrandsChanged \<in> set (warnings r) \<longleftrightarrow>
            prevBrands prevCat \<noteq> [] \<and>
            join '','' (prevBrands prevCat) \<noteq> join '','' brandList \<and> \<not> reseed"
    unfolding r by (simp add: assemble_merged brandsChanged_def)
  have c: "\<not> truthy prevCat \<longrightarrow> prevIds prevCat = [] \<and> prevBrands prevCat = []"
    by (simp add: prevIds_def prevBrands_def)
  have d: "reseeded r \<longrightarrow>
            catalogIds r = outIds (buildOutIds mx True [] (merged r) (fresh r))"
    unfolding r assemble_merged by (auto simp: buildOutIds_def)
  from a b c d show ?thesis by blast
qed

theorem reseed_decision_witness:
  "\<exists>r. reconcile sampleUpstream [''a'', ''c''] 3 False samplePerformers
           (Some (catalogJson ''t0'' [''a'', ''b''] 3 [''1'', ''2'', ''3''])) (''t1'', ''t2'')
         = Inr r \<and>
       prevBrands (Some (catalogJson ''t0'' [''a'', ''b''] 3 [''1'', ''2'', ''3''])) = [''a'', ''b''] \<and>
       reseeded r \<and> WarnBrandsChanged \<in> set (warnings r) \<and>
       catalogIds r = outIds (buildOutIds 3 True [] (merged r) (fresh r))"
proof -
  let ?cat = "Some (catalogJson ''t0'' [''a'', ''b''] 3 [''1'', ''2'', ''3''])"
  let ?run = "reconcile sampleUpstream [''a'', ''c''] 3 False samplePerformers ?cat (''t1'', ''t2'')"
  have "\<not> isl ?run" by code_simp
  then obtain r where r: "?run = Inr r"
    by (cases ?run) auto
  have p: "prevBrands ?cat = [''a'', ''b'']" by code_simp
  have j: "join '','' [''a'', ''b''] \<noteq> join '','' [''a'', ''c'']" by simp
  from reseed_decision[OF r] p j r show ?thesis by auto
qed

text \<open>
  As stated, the claim lets the run reseed only with the flag, without a previous
  catalog, or after a brand change.  A previous catalog that exists with an empty
  identifier list and the same brands (what this script writes when the upstream has
  nothing) makes the run reseed all the same, with no warning.
\<close>

theorem reseed_with_existing_catalog_counterexample:
  "\<not> isl emptyCatalogRun \<and>
   reseeded (projr emptyCatalogRun) \<and>
   truthy emptyCatalog \<and>
   prevBrands emptyCatalog = [''x''] \<and>
   WarnBrandsChanged \<notin> set (warnings (projr emptyCatalogRun))"
  by code_simp


section \<open>Running twice (C5)\<close>

subsection \<open>Normalised brands\<close>















subsection \<open>Reading back what a run wrote\<close>


declare arraysEqual.simps [simp del]












end
